theory Spec2Isabelle
  imports Main "HOL-Library.AList" "HOL-Library.Sublist"
begin

section \<open>Data model\<close>

text \<open>
  A \<^verbatim>\<open>Uint8Array\<close> is a list of bytes; \<^typ>\<open>char\<close> is exactly an 8-bit value.
  A JavaScript string is represented by its UTF-8 encoding, so \<^verbatim>\<open>encoder.encode\<close> is
  the identity on the boundary token and on the constants below. The platform functions
  \<^verbatim>\<open>TextDecoder.decode\<close> and \<^verbatim>\<open>JSON.parse\<close> are not part of the repository: they are
  parameters (\<open>dec\<close>, \<open>jparse\<close>) of every function that calls them.

  A plain JavaScript object used as a dictionary (the processor registry, the result) is
  a map, respectively an association list in insertion order; properties inherited from
  \<^verbatim>\<open>Object.prototype\<close> and the numeric ordering of integer-like keys are outside the model.
\<close>

type_synonym bytes = "char list"

datatype error =
    ParamsExtractionError          \<comment> \<open>"Something went wrong during the params extraction"\<close>
  | ContentDispositionError        \<comment> \<open>"Something went wrong during the content disposition params retrieval"\<close>
  | EntryNameMissing               \<comment> \<open>"The entry name is missing"\<close>
  | ProcessorError                 \<comment> \<open>a content processor threw\<close>


datatype 'v data = Raw bytes | Text string | Val 'v

record 'v entry =
  contentType :: string
  data :: "'v data"
  filename :: "string option"

datatype 'v slot = Single "'v entry" | Multiple "'v entry list"

type_synonym 'v result = "(string \<times> 'v slot) list"

text \<open>A content processor is a callback from the body bytes to a value; \<open>None\<close>: it threw.\<close>

type_synonym 'v processor = "bytes \<Rightarrow> 'v data option"
type_synonym 'v registry = "string \<rightharpoonup> 'v processor"

section \<open>Byte scanner\<close>

definition CR :: char where "CR = CHR 0x0D"
definition LF :: char where "LF = CHR 0x0A"

text \<open>\<^verbatim>\<open>a[i]\<close>: \<open>None\<close> is \<^verbatim>\<open>undefined\<close>, the value of a read out of range.\<close>

definition at :: "'a list \<Rightarrow> nat \<Rightarrow> 'a option" where
  "at a i = (if i < length a then Some (a ! i) else None)"

text \<open>\<^verbatim>\<open>a.subarray(b, e)\<close> for non-negative indices: both are clamped to the length, and an
  end before the begin gives the empty view. \<^verbatim>\<open>a.subarray(b)\<close> is \<^term>\<open>drop b a\<close>.\<close>

definition subarray :: "'a list \<Rightarrow> nat \<Rightarrow> nat \<Rightarrow> 'a list" where
  "subarray a b e = take (e - b) (drop b a)"

function arrayEq_loop :: "bytes \<Rightarrow> bytes \<Rightarrow> nat \<Rightarrow> bool" where
  "arrayEq_loop a b i =
     (if i < length a then
        (if a ! i \<noteq> b ! i then False else arrayEq_loop a b (i + 1))
      else True)"
  by pat_completeness auto
termination
  by (relation "measure (\<lambda>(a, b, i). length a - i)") auto

declare arrayEq_loop.simps [simp del]

definition arrayEq :: "bytes \<Rightarrow> bytes \<Rightarrow> bool" where
  "arrayEq a b = (if length a \<noteq> length b then False else arrayEq_loop a b 0)"

definition startsWithArrayPrefix :: "bytes \<Rightarrow> bytes \<Rightarrow> bool" where
  "startsWithArrayPrefix arr prefixArr = arrayEq (subarray arr 0 (length prefixArr)) prefixArr"

definition contentDispositionPrefixUTF8 :: bytes where
  "contentDispositionPrefixUTF8 = ''Content-Disposition: form-data;''"

definition contentTypePrefixUTF8 :: bytes where
  "contentTypePrefixUTF8 = ''Content-Type:''"

definition finalByte :: char where "finalByte = CHR ''-''"
definition equalUTF8 :: char where "equalUTF8 = CHR ''=''"
definition quoteUTF8 :: char where "quoteUTF8 = CHR 0x22"

definition nameUTF8 :: bytes where "nameUTF8 = ''name''"
definition filenameUTF8 :: bytes where "filenameUTF8 = ''filename''"

text \<open>The \<^verbatim>\<open>for\<close> loop of \<^verbatim>\<open>getLineEndIdx\<close>, with its variable \<^verbatim>\<open>currentByte\<close>.\<close>

function getLineEndIdx_loop :: "bytes \<Rightarrow> char option \<Rightarrow> nat \<Rightarrow> nat" where
  "getLineEndIdx_loop array currentByte i =
     (if i < length array then
        (let prevByte = currentByte; currentByte' = at array i in
         if prevByte = Some CR \<and> currentByte' = Some LF then i - 1
         else getLineEndIdx_loop array currentByte' (i + 1))
      else length array)"
  by pat_completeness auto
termination
  by (relation "measure (\<lambda>(array, c, i). length array - i)") auto

declare getLineEndIdx_loop.simps [simp del]

definition getLineEndIdx :: "bytes \<Rightarrow> nat \<Rightarrow> nat" where
  "getLineEndIdx array offset = getLineEndIdx_loop array (at array offset) (offset + 1)"

section \<open>Header parser\<close>

text \<open>\<^verbatim>\<open>extractParam\<close>: \<open>Inr None\<close> is the return of \<^verbatim>\<open>undefined\<close>, \<open>Inl\<close> the throw.\<close>

function extractParam_loop ::
  "(bytes \<Rightarrow> string) \<Rightarrow> bytes \<Rightarrow> nat \<Rightarrow> nat \<Rightarrow> error + (string \<times> nat) option" where
  "extractParam_loop dec params endI i =
     (if i < length params then
        (if params ! i = quoteUTF8 then
           Inr (Some (dec (subarray params (endI + 2) i), i + 1))
         else extractParam_loop dec params endI (i + 1))
      else Inl ParamsExtractionError)"
  by pat_completeness auto
termination
  by (relation "measure (\<lambda>(dec, params, endI, i). length params - i)") auto

declare extractParam_loop.simps [simp del]

definition extractParam ::
  "(bytes \<Rightarrow> string) \<Rightarrow> bytes \<Rightarrow> bytes \<Rightarrow> error + (string \<times> nat) option" where
  "extractParam dec params paramKey =
     (let endI = length paramKey in
      if at params endI \<noteq> Some equalUTF8 \<or> \<not> arrayEq (subarray params 0 endI) paramKey
      then Inr None
      else extractParam_loop dec params endI (endI + 2))"

text \<open>\<^verbatim>\<open>!name\<close> on a value that is \<^verbatim>\<open>undefined\<close> or a string.\<close>

fun falsy :: "string option \<Rightarrow> bool" where
  "falsy None = True"
| "falsy (Some s) = (s = [])"

text \<open>The \<^verbatim>\<open>for\<close> loop of \<^verbatim>\<open>readContentDisposition\<close>; a \<^verbatim>\<open>continue\<close> runs the increment.\<close>

function readContentDisposition_loop ::
  "(bytes \<Rightarrow> string) \<Rightarrow> bytes \<Rightarrow> string option \<Rightarrow> string option \<Rightarrow> nat
     \<Rightarrow> error + ((string option \<times> string option) \<times> nat)" where
  "readContentDisposition_loop dec params name fname i =
     (if i < length params then
        (let subArray = drop i params in
         case (if falsy name then extractParam dec subArray nameUTF8 else Inr None) of
           Inl e \<Rightarrow> Inl e
         | Inr (Some (d, offset)) \<Rightarrow>
             readContentDisposition_loop dec params (Some d) fname (i + offset + 1)
         | Inr None \<Rightarrow>
            (case (if falsy fname then extractParam dec subArray filenameUTF8 else Inr None) of
               Inl e \<Rightarrow> Inl e
             | Inr (Some (d, offset)) \<Rightarrow>
                 readContentDisposition_loop dec params name (Some d) (i + offset + 1)
             | Inr None \<Rightarrow>
                 if at params (i - 1) = Some CR \<and> at params i = Some LF
                 then Inr ((name, fname), i + 1)
                 else readContentDisposition_loop dec params name fname (i + 1)))
      else Inl ContentDispositionError)"
  by pat_completeness auto
termination
  by (relation "measure (\<lambda>(dec, params, name, fname, i). length params - i)") auto

declare readContentDisposition_loop.simps [simp del]

definition readContentDisposition ::
  "(bytes \<Rightarrow> string) \<Rightarrow> bytes \<Rightarrow> error + ((string option \<times> string option) \<times> nat)" where
  "readContentDisposition dec params =
     readContentDisposition_loop dec params None None (length contentDispositionPrefixUTF8 + 1)"

section \<open>Content transformer and result aggregator\<close>

definition processContent ::
  "'v registry \<Rightarrow> string \<Rightarrow> bytes \<Rightarrow> string option \<Rightarrow> error + 'v entry" where
  "processContent contentProcessors ct content fname =
     (case contentProcessors (if contentProcessors ct \<noteq> None then ct else ''default'') of
        None \<Rightarrow> Inl ProcessorError
      | Some processor \<Rightarrow>
         (case processor content of
            None \<Rightarrow> Inl ProcessorError
          | Some d \<Rightarrow> Inr \<lparr>contentType = ct, data = d, filename = fname\<rparr>))"

definition addContentToResult :: "'v result \<Rightarrow> string \<Rightarrow> 'v entry \<Rightarrow> 'v result" where
  "addContentToResult result name content =
     (case map_of result name of
        None \<Rightarrow> AList.update name (Single content) result
      | Some (Multiple vs) \<Rightarrow> AList.update name (Multiple (vs @ [content])) result
      | Some (Single v) \<Rightarrow> AList.update name (Multiple [v, content]) result)"

text \<open>The three built-in processors, and the caller's entries merged over them.\<close>

definition builtinProcessors :: "(bytes \<Rightarrow> string) \<Rightarrow> (string \<Rightarrow> 'v option) \<Rightarrow> 'v registry" where
  "builtinProcessors dec jparse =
     [''text/plain'' \<mapsto> (\<lambda>content. Some (Text (dec content))),
      ''application/json'' \<mapsto> (\<lambda>content. map_option Val (jparse (dec content))),
      ''default'' \<mapsto> (\<lambda>content. Some (Raw content))]"

definition contentProcessorsWithDefaults ::
  "(bytes \<Rightarrow> string) \<Rightarrow> (string \<Rightarrow> 'v option) \<Rightarrow> 'v registry \<Rightarrow> 'v registry" where
  "contentProcessorsWithDefaults dec jparse contentProcessors =
     builtinProcessors dec jparse ++ contentProcessors"

section \<open>Facts about the byte scanner\<close>

lemma arrayEq_loop_iff:
  "length a = length b \<Longrightarrow> arrayEq_loop a b i \<longleftrightarrow> drop i a = drop i b"
proof (induction a b i rule: arrayEq_loop.induct)
  case (1 a b i)
  show ?case
  proof (cases "i < length a")
    case True
    with "1.prems" have ib: "i < length b" by simp
    have da: "drop i a = a ! i # drop (Suc i) a" using True by (simp add: Cons_nth_drop_Suc)
    have db: "drop i b = b ! i # drop (Suc i) b" using ib by (simp add: Cons_nth_drop_Suc)
    show ?thesis
      using "1.IH" [OF True] "1.prems" True da db
      by (subst arrayEq_loop.simps) auto
  next
    case False
    with "1.prems" show ?thesis by (subst arrayEq_loop.simps) simp
  qed
qed

lemma arrayEq_iff: "arrayEq a b \<longleftrightarrow> a = b"
  using arrayEq_loop_iff [of a b 0] by (auto simp: arrayEq_def)

lemma startsWith_iff: "startsWithArrayPrefix arr p \<longleftrightarrow> prefix p arr"
  by (auto simp: startsWithArrayPrefix_def arrayEq_iff subarray_def prefix_def
      dest: arg_cong [where f = "take (length p)"])
     (metis append_eq_conv_conj)





lemma gle_loop_end: "\<not> i < length a \<Longrightarrow> getLineEndIdx_loop a c i = length a"
  by (subst getLineEndIdx_loop.simps) simp

lemma gle_loop_hit:
  "i < length a \<Longrightarrow> c = Some CR \<Longrightarrow> at a i = Some LF \<Longrightarrow> getLineEndIdx_loop a c i = i - 1"
  by (subst getLineEndIdx_loop.simps) (simp add: Let_def)

lemma gle_loop_miss:
  "i < length a \<Longrightarrow> \<not> (c = Some CR \<and> at a i = Some LF) \<Longrightarrow>
   getLineEndIdx_loop a c i = getLineEndIdx_loop a (at a i) (i + 1)"
  by (subst getLineEndIdx_loop.simps) (auto simp add: Let_def)

definition crlf_at :: "bytes \<Rightarrow> nat \<Rightarrow> bool" where
  "crlf_at a j = (at a j = Some CR \<and> at a (j + 1) = Some LF)"

lemma getLineEndIdx_loop_spec:
  "0 < i \<Longrightarrow> c = at a (i - 1) \<Longrightarrow>
   getLineEndIdx_loop a c i \<le> length a \<and>
   (getLineEndIdx_loop a c i < length a \<longrightarrow> i - 1 \<le> getLineEndIdx_loop a c i \<and> crlf_at a (getLineEndIdx_loop a c i)) \<and>
   (\<forall>j. i - 1 \<le> j \<and> j < getLineEndIdx_loop a c i \<longrightarrow> \<not> crlf_at a j)"
proof (induction a c i rule: getLineEndIdx_loop.induct)
  case (1 a c i)
  show ?case
  proof (cases "i < length a")
    case False
    then have e: "getLineEndIdx_loop a c i = length a" by (rule gle_loop_end)
    have "\<not> crlf_at a j" if "i - 1 \<le> j" for j
      using that False by (auto simp: crlf_at_def at_def split: if_splits)
    then show ?thesis unfolding e by simp
  next
    case True
    show ?thesis
    proof (cases "c = Some CR \<and> at a i = Some LF")
      case hit: True
      then have e: "getLineEndIdx_loop a c i = i - 1"
        using True by (simp add: gle_loop_hit)
      have "crlf_at a (i - 1)" using hit "1.prems" by (simp add: crlf_at_def)
      then show ?thesis unfolding e using True by auto
    next
      case miss: False
      have eq: "getLineEndIdx_loop a c i = getLineEndIdx_loop a (at a i) (i + 1)"
        by (rule gle_loop_miss [OF True miss])
      define g where "g = getLineEndIdx_loop a (at a i) (i + 1)"
      have "0 < i + 1" "at a i = at a (i + 1 - 1)" by simp_all
      from "1.IH" [OF True refl refl miss this]
      have IH1: "g \<le> length a" and IH2: "g < length a \<Longrightarrow> i \<le> g \<and> crlf_at a g"
        and IH3: "\<And>j. i \<le> j \<Longrightarrow> j < g \<Longrightarrow> \<not> crlf_at a j"
        unfolding g_def by simp_all
      have nohit: "\<not> crlf_at a (i - 1)"
        using miss "1.prems" by (simp add: crlf_at_def)
      have A: "\<not> crlf_at a j" if "i - 1 \<le> j" "j < g" for j
      proof (cases "j = i - 1")
        case True then show ?thesis using nohit by simp
      next
        case False with that have "i \<le> j" by arith
        then show ?thesis using IH3 that by blast
      qed
      have B: "i - 1 \<le> g \<and> crlf_at a g" if "g < length a"
        using IH2 [OF that] by arith
      show ?thesis unfolding eq g_def [symmetric] using IH1 A B by blast
    qed
  qed
qed

lemma getLineEndIdx_le: "getLineEndIdx a off \<le> length a"
  using getLineEndIdx_loop_spec [of "off + 1" "at a off" a] by (simp add: getLineEndIdx_def)

lemma getLineEndIdx_found:
  "getLineEndIdx a off < length a \<Longrightarrow> off \<le> getLineEndIdx a off \<and> crlf_at a (getLineEndIdx a off)"
  using getLineEndIdx_loop_spec [of "off + 1" "at a off" a] by (simp add: getLineEndIdx_def)

lemma getLineEndIdx_first:
  "off \<le> j \<Longrightarrow> j < getLineEndIdx a off \<Longrightarrow> \<not> crlf_at a j"
  using getLineEndIdx_loop_spec [of "off + 1" "at a off" a] by (simp add: getLineEndIdx_def)

lemma getLineEndIdx_unique:
  assumes "r \<le> length a" "r < length a \<Longrightarrow> off \<le> r \<and> crlf_at a r"
    and "\<And>j. off \<le> j \<Longrightarrow> j < r \<Longrightarrow> \<not> crlf_at a j"
  shows "getLineEndIdx a off = r"
proof (rule ccontr)
  assume ne: "getLineEndIdx a off \<noteq> r"
  let ?g = "getLineEndIdx a off"
  show False
  proof (cases "?g < r")
    case True
    then have "?g < length a" using assms(1) by simp
    from getLineEndIdx_found [OF this] assms(3) True show False by blast
  next
    case False
    with ne have lt: "r < ?g" by simp
    then have "r < length a" using getLineEndIdx_le [of a off] by simp
    from assms(2) [OF this] getLineEndIdx_first [of off r a] lt show False by blast
  qed
qed

lemma getLineEndIdx_beyond: "length a \<le> off \<Longrightarrow> getLineEndIdx a off = length a"
  by (rule getLineEndIdx_unique) (auto simp: crlf_at_def at_def)

section \<open>Parse driver\<close>

text \<open>
  \<^verbatim>\<open>parseMultipartFormData\<close> is four loops. Each is a function of its own here, on the
  variables it reads and writes:
  \<^item> \<open>preamble_loop\<close>, the first \<^verbatim>\<open>do ... while\<close>, returns \<^verbatim>\<open>startIdx\<close>;
  \<^item> \<open>header_loop\<close>, the \<^verbatim>\<open>do ... while\<close> over the header block of a part, works on the
    variables \<^verbatim>\<open>name\<close>, \<^verbatim>\<open>contentType\<close>, \<^verbatim>\<open>filename\<close> and \<^verbatim>\<open>startIdx\<close> (the record
    \<open>header\<close>); \<open>header_step\<close> is its body, where every path ends at the loop's condition
    (a \<^verbatim>\<open>continue\<close> in a \<^verbatim>\<open>do ... while\<close> jumps to the condition);
  \<^item> \<open>body_scan\<close>, the \<^verbatim>\<open>do ... while\<close> that looks for the next delimiter line, returns
    \<^verbatim>\<open>lineEndIdx\<close>. Nothing bounds it, so it is a partial function: \<open>None\<close> is "the loop
    does not exit";
  \<^item> \<open>parts_loop\<close>, the \<^verbatim>\<open>while\<close> over the parts, with \<open>parse_part\<close> as its body: the
    body ends in \<^verbatim>\<open>break\<close> (\<open>Break\<close>) or goes round again (\<open>Continue\<close>) with the new
    \<^verbatim>\<open>result\<close>, \<^verbatim>\<open>startIdx\<close> and \<^verbatim>\<open>lineEndIdx\<close>.
  A call of the parser is \<open>None\<close> when it does not return, \<open>Some (Inl e)\<close> when it throws and
  \<open>Some (Inr result)\<close> when it returns \<open>result\<close>.
\<close>

record header =
  h_name :: "string option"
  h_contentType :: "string option"
  h_filename :: "string option"
  h_startIdx :: nat

definition header_step :: "(bytes \<Rightarrow> string) \<Rightarrow> bytes \<Rightarrow> header \<Rightarrow> error + header" where
  "header_step dec array h =
     (let startIdx = h_startIdx h; line = drop startIdx array in
      if falsy (h_name h) \<and> startsWithArrayPrefix line contentDispositionPrefixUTF8 then
        (case readContentDisposition dec line of
           Inl e \<Rightarrow> Inl e
         | Inr ((name, fname), offset) \<Rightarrow>
             Inr (h\<lparr>h_name := name, h_filename := fname, h_startIdx := startIdx + offset\<rparr>))
      else if falsy (h_contentType h) \<and> startsWithArrayPrefix line contentTypePrefixUTF8 then
        (let lineEndIdx = getLineEndIdx array (startIdx + length contentTypePrefixUTF8);
             ctype = dec (subarray array (startIdx + length contentTypePrefixUTF8 + 1) lineEndIdx)
         in Inr (h\<lparr>h_contentType := Some ctype, h_startIdx := lineEndIdx + 2\<rparr>))
      else Inr (h\<lparr>h_startIdx := startIdx + 1\<rparr>))"

text \<open>Every round of the header loop moves \<^verbatim>\<open>startIdx\<close> forward, so the loop terminates.\<close>

lemma readContentDisposition_loop_offset:
  "readContentDisposition_loop dec params name fname i = Inr (r, off) \<Longrightarrow> i < off"
proof (induction dec params name fname i rule: readContentDisposition_loop.induct)
  case (1 dec params name fname i)
  from "1.prems" show ?case
    apply (subst (asm) readContentDisposition_loop.simps)
    apply (simp add: Let_def split: if_splits sum.splits option.splits prod.splits)
    using "1.IH" by (fastforce simp: Let_def)+
qed

lemma header_step_progress:
  assumes "header_step dec array h = Inr h'" "h_startIdx h' < length array"
  shows "h_startIdx h < h_startIdx h'"
proof -
  let ?s = "h_startIdx h"
  let ?n = "length contentTypePrefixUTF8"
  have ct: "?s < getLineEndIdx array (?s + ?n) + 2"
    if "getLineEndIdx array (?s + ?n) + 2 < length array"
  proof -
    from that have "getLineEndIdx array (?s + ?n) < length array" by simp
    from getLineEndIdx_found [OF this] show ?thesis by simp
  qed
  have cd: "0 < off" if "readContentDisposition dec (drop ?s array) = Inr (r, off)" for r off
    using readContentDisposition_loop_offset [OF that [unfolded readContentDisposition_def]] by simp
  from assms show ?thesis
    using ct by (auto simp: header_step_def Let_def split: if_splits sum.splits prod.splits dest!: cd)
qed

function header_loop :: "(bytes \<Rightarrow> string) \<Rightarrow> bytes \<Rightarrow> header \<Rightarrow> error + header" where
  "header_loop dec array h =
     (case header_step dec array h of
        Inl e \<Rightarrow> Inl e
      | Inr h' \<Rightarrow>
          if (at array (h_startIdx h') \<noteq> Some CR \<or> at array (h_startIdx h' + 1) \<noteq> Some LF)
             \<and> h_startIdx h' < length array
          then header_loop dec array h'
          else Inr h')"
  by pat_completeness auto
termination
  by (relation "measure (\<lambda>(dec, array, h). length array - h_startIdx h)")
     (auto dest: header_step_progress)

declare header_loop.simps [simp del]

function preamble_loop :: "bytes \<Rightarrow> bytes \<Rightarrow> nat \<Rightarrow> nat" where
  "preamble_loop array separatorUTF8 startIdx =
     (let lineEndIdx = getLineEndIdx array startIdx;
          line = subarray array startIdx lineEndIdx;
          startIdx' = lineEndIdx + 2
      in if \<not> startsWithArrayPrefix line separatorUTF8 \<and> startIdx' < length array
         then preamble_loop array separatorUTF8 startIdx'
         else startIdx')"
  by pat_completeness auto
termination
proof (relation "measure (\<lambda>(array, sep, startIdx). length array - startIdx)", goal_cases)
  case 1
  show ?case by simp
next
  case (2 array sep startIdx lineEndIdx line startIdx')
  then have "getLineEndIdx array startIdx < length array" by simp
  from getLineEndIdx_found [OF this] 2 show ?case by (simp, arith)
qed

declare preamble_loop.simps [simp del]

text \<open>The code equations of the two partial functions are their defining equations.\<close>

partial_function (option) body_scan :: "bytes \<Rightarrow> bytes \<Rightarrow> nat \<Rightarrow> nat option" where
  "body_scan array separatorUTF8 lineEndIdx =
     (let lineEndIdx' = getLineEndIdx array lineEndIdx + 2 in
      if \<not> startsWithArrayPrefix (drop lineEndIdx' array) separatorUTF8
      then body_scan array separatorUTF8 lineEndIdx'
      else Some lineEndIdx')"

declare body_scan.simps [code]

datatype 'v outcome = Break "'v result" | Continue "'v result" nat nat

definition parse_part ::
  "(bytes \<Rightarrow> string) \<Rightarrow> 'v registry \<Rightarrow> bytes \<Rightarrow> bytes \<Rightarrow> 'v result \<Rightarrow> nat
     \<Rightarrow> (error + 'v outcome) option" where
  "parse_part dec registry array separatorUTF8 result lineEndIdx =
     (case header_loop dec array
             \<lparr>h_name = None, h_contentType = None, h_filename = None, h_startIdx = lineEndIdx\<rparr> of
        Inl e \<Rightarrow> Some (Inl e)
      | Inr h \<Rightarrow>
         (case h_name h of
            None \<Rightarrow> Some (Inl EntryNameMissing)
          | Some name \<Rightarrow>
             if name = [] then Some (Inl EntryNameMissing)
             else
              (let ctype = (case h_contentType h of None \<Rightarrow> ''text/plain'' | Some c \<Rightarrow> c);
                   startIdx = h_startIdx h + 1
               in case body_scan array separatorUTF8 startIdx of
                    None \<Rightarrow> None
                  | Some lineEndIdx' \<Rightarrow>
                     (case processContent registry ctype
                             (subarray array (startIdx + 1) (lineEndIdx' - 2)) (h_filename h) of
                        Inl e \<Rightarrow> Some (Inl e)
                      | Inr content \<Rightarrow>
                         (let result' = addContentToResult result name content;
                              startIdx' = lineEndIdx';
                              lineEndIdx'' = getLineEndIdx array startIdx';
                              line = subarray array (startIdx' + length separatorUTF8) lineEndIdx''
                          in if at line 0 = Some finalByte \<and> at line 1 = Some finalByte
                             then Some (Inr (Break result'))
                             else Some (Inr (Continue result' startIdx' (lineEndIdx'' + 2))))))))"

partial_function (option) parts_loop ::
  "(bytes \<Rightarrow> string) \<Rightarrow> 'v registry \<Rightarrow> bytes \<Rightarrow> bytes \<Rightarrow> 'v result \<Rightarrow> nat \<Rightarrow> nat
     \<Rightarrow> (error + 'v result) option" where
  "parts_loop dec registry array separatorUTF8 result startIdx lineEndIdx =
     (if startIdx < length array then
        (case parse_part dec registry array separatorUTF8 result lineEndIdx of
           None \<Rightarrow> None
         | Some (Inl e) \<Rightarrow> Some (Inl e)
         | Some (Inr (Break result')) \<Rightarrow> Some (Inr result')
         | Some (Inr (Continue result' startIdx' lineEndIdx')) \<Rightarrow>
             parts_loop dec registry array separatorUTF8 result' startIdx' lineEndIdx')
      else Some (Inr result))"

declare parts_loop.simps [code]

definition parseMultipartFormData ::
  "(bytes \<Rightarrow> string) \<Rightarrow> (string \<Rightarrow> 'v option) \<Rightarrow> bytes \<Rightarrow> string \<Rightarrow> 'v registry
     \<Rightarrow> (error + 'v result) option" where
  "parseMultipartFormData dec jparse inputArray boundary contentProcessors =
     (let registry = contentProcessorsWithDefaults dec jparse contentProcessors;
          separatorUTF8 = ''--'' @ boundary;
          startIdx = preamble_loop inputArray separatorUTF8 0
      in parts_loop dec registry inputArray separatorUTF8 [] startIdx startIdx)"

section \<open>Auxiliary definitions for the statements\<close>

text \<open>On ASCII input \<^verbatim>\<open>TextDecoder.decode\<close> is the identity (strings are represented by
  their UTF-8 bytes); this instance of the parameter \<open>dec\<close> is used at the concrete inputs
  below, which are ASCII. \<open>noJSON\<close> is a \<^verbatim>\<open>JSON.parse\<close> that rejects every text.\<close>

definition decodeASCII :: "bytes \<Rightarrow> string" where
  "decodeASCII content = content"

definition noJSON :: "string \<Rightarrow> unit option" where
  "noJSON s = None"

definition crlf :: bytes where "crlf = [CR, LF]"





fun outcome_result :: "'v outcome \<Rightarrow> 'v result" where
  "outcome_result (Break r) = r"
| "outcome_result (Continue r s l) = r"

text \<open>Example payloads. \<open>disposition name\<close> is a Content-Disposition header line without
  its line end.\<close>

definition disposition :: "string \<Rightarrow> bytes" where
  "disposition name = ''Content-Disposition: form-data; name='' @ [quoteUTF8] @ name @ [quoteUTF8]"

definition unterminated_payload :: bytes where
  "unterminated_payload = ''--B'' @ crlf @ disposition ''a'' @ crlf @ crlf @ ''body''"

text \<open>The lines of a buffer, as the spec reads it: the pieces between successive CR LF pairs.\<close>

fun split_crlf :: "bytes \<Rightarrow> bytes list" where
  "split_crlf [] = [[]]"
| "split_crlf [x] = [[x]]"
| "split_crlf (x # y # zs) =
     (if x = CR \<and> y = LF then [] # split_crlf zs
      else (case split_crlf (y # zs) of [] \<Rightarrow> [[x]] | l # ls \<Rightarrow> (x # l) # ls))"

text \<open>The header block of the part whose headers start at \<open>lineEndIdx\<close>: the header loop run
  from the fresh variables of one round of the loop over the parts.\<close>

definition part_headers :: "(bytes \<Rightarrow> string) \<Rightarrow> bytes \<Rightarrow> nat \<Rightarrow> error + header" where
  "part_headers dec array lineEndIdx =
     header_loop dec array
       \<lparr>h_name = None, h_contentType = None, h_filename = None, h_startIdx = lineEndIdx\<rparr>"

text \<open>One completed round of the loop over the parts that goes on to the next part, as a
  relation between the loop's variables (\<open>result\<close>, \<open>startIdx\<close>, \<open>lineEndIdx\<close>) before and
  after it; the parser reaches the states related to its start by the reflexive transitive
  closure.\<close>

definition part_next ::
  "(bytes \<Rightarrow> string) \<Rightarrow> 'v registry \<Rightarrow> bytes \<Rightarrow> bytes
     \<Rightarrow> 'v result \<times> nat \<times> nat \<Rightarrow> 'v result \<times> nat \<times> nat \<Rightarrow> bool" where
  "part_next dec registry array separatorUTF8 st st' =
     (fst (snd st) < length array \<and>
      parse_part dec registry array separatorUTF8 (fst st) (snd (snd st))
        = Some (Inr (Continue (fst st') (fst (snd st')) (snd (snd st')))))"

text \<open>The test of the two bytes after the delimiter at \<open>p\<close>, as the loop over the parts
  makes it.\<close>

definition final_boundary_at :: "bytes \<Rightarrow> bytes \<Rightarrow> nat \<Rightarrow> bool" where
  "final_boundary_at array separatorUTF8 p =
     (at (subarray array (p + length separatorUTF8) (getLineEndIdx array p)) 0 = Some finalByte \<and>
      at (subarray array (p + length separatorUTF8) (getLineEndIdx array p)) 1 = Some finalByte)"



definition nameless_payload :: bytes where
  "nameless_payload =
     ''--B'' @ crlf @ disposition ''a'' @ crlf @ crlf @ ''x'' @ crlf @
     ''--B'' @ crlf @ ''X-Other: 1'' @ crlf @ crlf @ ''y'' @ crlf @ ''--B--''"

definition empty_name_payload :: bytes where
  "empty_name_payload =
     ''--B'' @ crlf @ disposition '''' @ crlf @ crlf @ ''x'' @ crlf @ ''--B--''"

definition renamed_payload :: bytes where
  "renamed_payload =
     ''--B'' @ crlf @ disposition '''' @ ''; name='' @ [quoteUTF8] @ ''x'' @ [quoteUTF8] @ crlf @ crlf
       @ ''v'' @ crlf @ ''--B--''"


text \<open>Moving the indices of a header state and of a round's outcome by \<open>n\<close> bytes.\<close>

definition shift_header :: "nat \<Rightarrow> header \<Rightarrow> header" where
  "shift_header n h = h\<lparr>h_startIdx := n + h_startIdx h\<rparr>"

fun shift_outcome :: "nat \<Rightarrow> 'v outcome \<Rightarrow> 'v outcome" where
  "shift_outcome n (Break r) = Break r"
| "shift_outcome n (Continue r s l) = Continue r (n + s) (n + l)"

text \<open>A preamble made of the lines \<open>ls\<close>, each followed by CR LF.\<close>

definition preamble_of :: "bytes list \<Rightarrow> bytes" where
  "preamble_of ls = concat (map (\<lambda>l. l @ crlf) ls)"

definition preamble_example :: "bytes list" where
  "preamble_example = [''This is the preamble.'', [], ''-- B is not a delimiter'']"

definition two_part_payload :: bytes where
  "two_part_payload =
     ''--B'' @ crlf @ disposition ''a'' @ crlf @ crlf @ ''x'' @ crlf @
     ''--B'' @ crlf @ disposition ''a'' @ crlf @ ''Content-Type: image/png'' @ crlf @ crlf
       @ ''y'' @ crlf @ ''--B--''"



section \<open>Content-Disposition parameter extraction\<close>




section \<open>Result aggregation\<close>


lemma addContentToResult_keys:
  "map fst (addContentToResult r n e) = (if n \<in> set (map fst r) then map fst r else map fst r @ [n])"
  by (auto simp: addContentToResult_def update_keys split: option.splits slot.splits
      dest: map_of_SomeD simp: map_of_eq_None_iff)







section \<open>The body scan\<close>

lemma prefix_drop_length:
  "prefix p (drop j a) \<Longrightarrow> p \<noteq> [] \<Longrightarrow> j + length p \<le> length a \<and> j < length a"
  by (cases "j < length a") (auto dest!: prefix_length_le)

lemma body_scan_Some_aux:
  assumes "body_scan array sep i = Some p"
  shows "sep \<noteq> [] \<longrightarrow>
     i < length array \<and> i + 2 \<le> p \<and> p + length sep \<le> length array
       \<and> prefix sep (drop p array) \<and> crlf_at array (p - 2)"
proof (induct rule: body_scan.raw_induct [OF _ assms])
  case (1 scan array sep i p)
  note IH = "1.hyps"(1) and eq = "1.hyps"(2)
  let ?g = "getLineEndIdx array i"
  show ?case
  proof
    assume ne: "sep \<noteq> []"
    show "i < length array \<and> i + 2 \<le> p \<and> p + length sep \<le> length array
       \<and> prefix sep (drop p array) \<and> crlf_at array (p - 2)"
    proof (cases "startsWithArrayPrefix (drop (?g + 2) array) sep")
      case True
      with eq have p: "p = ?g + 2" by (simp add: Let_def)
      from True have pre: "prefix sep (drop p array)" by (simp add: startsWith_iff p)
      from prefix_drop_length [OF pre ne] have "?g < length array" by (simp add: p)
      from getLineEndIdx_found [OF this] pre prefix_drop_length [OF pre ne]
      show ?thesis by (simp add: p)
    next
      case False
      with eq have "scan array sep (?g + 2) = Some p" by (simp add: Let_def)
      from IH [OF this] ne
      have *: "?g + 2 < length array" "?g + 2 + 2 \<le> p" "p + length sep \<le> length array"
        "prefix sep (drop p array)" "crlf_at array (p - 2)" by simp_all
      then have "?g < length array" by simp
      from getLineEndIdx_found [OF this] * show ?thesis by simp
    qed
  qed
qed

lemma body_scan_Some:
  assumes "body_scan array sep i = Some p" "sep \<noteq> []"
  shows "i < length array" "i + 2 \<le> p" "p + length sep \<le> length array"
    "prefix sep (drop p array)" "crlf_at array (p - 2)"
  using body_scan_Some_aux [OF assms(1)] assms(2) by simp_all

lemma body_scan_beyond:
  "sep \<noteq> [] \<Longrightarrow> length array \<le> i \<Longrightarrow> body_scan array sep i = None"
  using body_scan_Some(1) [of array sep i] by (cases "body_scan array sep i") auto

lemma parts_loop_done:
  "length array \<le> startIdx \<Longrightarrow> parts_loop dec reg array sep result startIdx l = Some (Inr result)"
  by (subst parts_loop.simps) simp

text \<open>
  C1. The claim is that every call terminates. The body scan does not: on a payload whose
  last part is not followed by a delimiter line, \<^verbatim>\<open>getLineEndIdx\<close> returns the length of
  the buffer, \<^verbatim>\<open>lineEndIdx\<close> becomes the length plus two, the view from there is empty and
  does not start with the delimiter, and the next round computes the same index again.
  The result \<open>None\<close> of the parser is "does not return".
\<close>

theorem body_scan_runs_forever:
  "parseMultipartFormData decodeASCII noJSON unterminated_payload ''B'' Map.empty = None"
proof -
  let ?a = unterminated_payload
  let ?reg = "contentProcessorsWithDefaults decodeASCII noJSON Map.empty"
  have pre: "preamble_loop ?a ''--B'' 0 = 5" by code_simp
  have len: "length ?a = 53" by code_simp
  have hdr: "header_loop decodeASCII ?a
      \<lparr>h_name = None, h_contentType = None, h_filename = None, h_startIdx = 5\<rparr>
    = Inr \<lparr>h_name = Some ''a'', h_contentType = None, h_filename = None, h_startIdx = 47\<rparr>"
    by code_simp
  have g: "getLineEndIdx ?a 48 = 53" by code_simp
  have nsw: "\<not> startsWithArrayPrefix (drop 55 ?a) ''--B''" by code_simp
  have "body_scan ?a ''--B'' 48 = body_scan ?a ''--B'' 55"
    by (subst body_scan.simps) (simp add: g nsw Let_def)
  also have "\<dots> = None" by (rule body_scan_beyond) (simp_all add: len)
  finally have scan: "body_scan ?a ''--B'' 48 = None" .
  have part: "parse_part decodeASCII ?reg ?a ''--B'' [] 5 = None"
    by (simp add: parse_part_def hdr scan)
  have "parts_loop decodeASCII ?reg ?a ''--B'' [] 5 5 = None"
    by (subst parts_loop.simps) (simp add: part len)
  then show ?thesis by (simp add: parseMultipartFormData_def pre)
qed

section \<open>Preamble\<close>

lemma at_append_right: "at (q @ p) (length q + j) = at p j"
  by (simp add: at_def)


lemma crlf_at_append_right: "crlf_at (q @ p) (length q + j) = crlf_at p j"
  using at_append_right [of q p j] at_append_right [of q p "j + 1"]
  by (simp add: crlf_at_def add.assoc)

lemma getLineEndIdx_shift: "getLineEndIdx (q @ p) (length q + off) = length q + getLineEndIdx p off"
proof (rule getLineEndIdx_unique)
  show "length q + getLineEndIdx p off \<le> length (q @ p)"
    using getLineEndIdx_le [of p off] by simp
next
  assume "length q + getLineEndIdx p off < length (q @ p)"
  then have "getLineEndIdx p off < length p" by simp
  from getLineEndIdx_found [OF this]
  show "length q + off \<le> length q + getLineEndIdx p off \<and>
        crlf_at (q @ p) (length q + getLineEndIdx p off)"
    by (simp add: crlf_at_append_right)
next
  fix j assume j: "length q + off \<le> j" "j < length q + getLineEndIdx p off"
  then obtain j' where j': "j = length q + j'" using le_Suc_ex by (metis le_add1 le_trans)
  with j have "off \<le> j'" "j' < getLineEndIdx p off" by simp_all
  from getLineEndIdx_first [OF this] show "\<not> crlf_at (q @ p) j"
    by (simp add: j' crlf_at_append_right)
qed

lemma getLineEndIdx_drop:
  assumes "s \<le> length a"
  shows "getLineEndIdx a s = s + getLineEndIdx (drop s a) 0"
proof -
  have "getLineEndIdx (take s a @ drop s a) (length (take s a) + 0)
        = length (take s a) + getLineEndIdx (drop s a) 0"
    by (rule getLineEndIdx_shift)
  with assms show ?thesis by (simp add: min_absorb2)
qed

lemma split_crlf_nonempty: "split_crlf xs \<noteq> []"
  by (induction xs rule: split_crlf.induct) (auto split: list.splits)

lemma crlf_at_Cons: "crlf_at (x # xs) (Suc j) = crlf_at xs j"
  by (simp add: crlf_at_def at_def)

lemma crlf_at_0: "crlf_at (x # y # zs) 0 \<longleftrightarrow> x = CR \<and> y = LF"
  by (auto simp: crlf_at_def at_def)

lemma split_crlf_first:
  "split_crlf xs = l # ls \<Longrightarrow>
     take (length l) xs = l \<and> (\<forall>j < length l. \<not> crlf_at xs j) \<and>
     (if ls = [] then length l = length xs
      else crlf_at xs (length l) \<and> split_crlf (drop (length l + 2) xs) = ls)"
proof (induction xs arbitrary: l ls rule: split_crlf.induct)
  case 1
  then show ?case by simp
next
  case (2 x)
  then show ?case by (auto simp: crlf_at_def at_def)
next
  case (3 x y zs)
  show ?case
  proof (cases "x = CR \<and> y = LF")
    case True
    with "3.prems" show ?thesis by (auto simp: crlf_at_0 split_crlf_nonempty)
  next
    case False
    obtain l' ls' where s: "split_crlf (y # zs) = l' # ls'"
      using split_crlf_nonempty [of "y # zs"] by (cases "split_crlf (y # zs)") auto
    from "3.prems" False s have l: "l = x # l'" and ls: "ls = ls'" by auto
    note IH0 = "3.IH"(2) [OF False s]
    note IH = IH0 [THEN conjunct1] IH0 [THEN conjunct2, THEN conjunct1]
      IH0 [THEN conjunct2, THEN conjunct2]
    have a: "\<not> crlf_at (x # y # zs) j" if "j < length l" for j
    proof (cases j)
      case 0
      then show ?thesis using False by (simp add: crlf_at_0)
    next
      case (Suc j')
      with that l IH(2) show ?thesis by (simp add: crlf_at_Cons)
    qed
    show ?thesis
      using IH(1) IH(3) a by (auto simp: l ls crlf_at_Cons split: if_splits)
  qed
qed

lemma line_of_split:
  assumes "s \<le> length a" "split_crlf (drop s a) = l # ls"
  shows "subarray a s (getLineEndIdx a s) = l"
    and "getLineEndIdx a s + 2 < length a \<Longrightarrow> split_crlf (drop (getLineEndIdx a s + 2) a) = ls"
    and "getLineEndIdx a s + 2 \<le> length a
         \<Longrightarrow> ls \<noteq> [] \<and> split_crlf (drop (getLineEndIdx a s + 2) a) = ls"
proof -
  let ?xs = "drop s a"
  note f = split_crlf_first [OF assms(2)]
  note f1 = f [THEN conjunct1] and f2 = f [THEN conjunct2, THEN conjunct1]
    and f3 = f [THEN conjunct2, THEN conjunct2]
  have f3a: "length l = length ?xs" if "ls = []" using f3 that by simp
  have f3b: "crlf_at ?xs (length l)" "split_crlf (drop (length l + 2) ?xs) = ls" if "ls \<noteq> []"
    using f3 that by simp_all
  have ll: "length l \<le> length ?xs"
  proof -
    have "length l = length (take (length l) ?xs)" by (simp only: f1)
    also have "\<dots> \<le> length ?xs" by (simp only: length_take min.cobounded2)
    finally show ?thesis .
  qed
  define r where "r = (if ls = [] then length ?xs else length l)"
  have g0: "getLineEndIdx ?xs 0 = r"
  proof (rule getLineEndIdx_unique)
    show "r \<le> length ?xs" using ll by (simp add: r_def)
  next
    assume "r < length ?xs"
    then have "ls \<noteq> []" by (auto simp: r_def)
    with f3b show "0 \<le> r \<and> crlf_at ?xs r" by (simp add: r_def)
  next
    fix j assume "0 \<le> j" "j < r"
    then have "j < length l" using ll f3a by (auto simp: r_def split: if_splits)
    with f2 show "\<not> crlf_at ?xs j" by blast
  qed
  have g: "getLineEndIdx a s = s + r"
    using getLineEndIdx_drop [OF assms(1)] unfolding g0 .
  have tk: "take r ?xs = l"
  proof (cases "ls = []")
    case True
    then have "r = length l" using f3a by (simp add: r_def)
    then show ?thesis by (simp only: f1)
  next
    case False
    then have "r = length l" by (simp add: r_def)
    then show ?thesis by (simp only: f1)
  qed
  show "subarray a s (getLineEndIdx a s) = l"
    unfolding g subarray_def using tk by simp
  have rest: "ls \<noteq> [] \<and> split_crlf (drop (getLineEndIdx a s + 2) a) = ls"
    if "getLineEndIdx a s + 2 \<le> length a"
  proof (cases "ls = []")
    case True
    with that assms(1) show ?thesis by (simp add: g r_def)
  next
    case False
    then have r: "r = length l" by (simp add: r_def)
    have "drop (length l + 2) ?xs = drop (getLineEndIdx a s + 2) a"
      unfolding g r by (simp add: add.commute)
    with f3b(2) [OF False] False show ?thesis by simp
  qed
  show "split_crlf (drop (getLineEndIdx a s + 2) a) = ls" if "getLineEndIdx a s + 2 < length a"
    using rest that by simp
  show "ls \<noteq> [] \<and> split_crlf (drop (getLineEndIdx a s + 2) a) = ls"
    if "getLineEndIdx a s + 2 \<le> length a"
    using rest that by simp
qed

lemma preamble_loop_no_delimiter:
  "s \<le> length a \<Longrightarrow> \<forall>l \<in> set (split_crlf (drop s a)). \<not> prefix sep l \<Longrightarrow>
   length a \<le> preamble_loop a sep s"
proof (induction a sep s rule: preamble_loop.induct)
  case (1 a sep s)
  let ?g = "getLineEndIdx a s"
  obtain l ls where sp: "split_crlf (drop s a) = l # ls"
    using split_crlf_nonempty [of "drop s a"] by (cases "split_crlf (drop s a)") auto
  note lo = line_of_split [OF "1.prems"(1) sp]
  have nl: "\<not> startsWithArrayPrefix (subarray a s ?g) sep"
    using "1.prems"(2) sp lo(1) by (simp add: startsWith_iff)
  show ?case
  proof (cases "?g + 2 < length a")
    case True
    from lo(2) [OF True] "1.prems"(2) sp
    have "\<forall>l \<in> set (split_crlf (drop (?g + 2) a)). \<not> prefix sep l" by simp
    from "1.IH" [OF refl refl refl _ _ this] nl True
    have "length a \<le> preamble_loop a sep (?g + 2)" by simp
    then show ?thesis using nl True by (subst preamble_loop.simps) (simp add: Let_def)
  next
    case False
    then show ?thesis by (subst preamble_loop.simps) (simp add: Let_def)
  qed
qed

text \<open>
  C2 (as amended). When no line of the buffer starts with the boundary delimiter, the
  preamble loop runs to the end of the buffer, the loop over the parts is not entered, and
  the parser returns the empty result: no error is raised.
\<close>

theorem no_boundary_gives_empty_result:
  assumes "\<forall>l \<in> set (split_crlf inputArray). \<not> prefix (''--'' @ boundary) l"
  shows "parseMultipartFormData dec jparse inputArray boundary contentProcessors = Some (Inr [])"
proof -
  have "length inputArray \<le> preamble_loop inputArray (''--'' @ boundary) 0"
    using preamble_loop_no_delimiter [of 0 inputArray "''--'' @ boundary"] assms by simp
  then show ?thesis
    by (simp add: parseMultipartFormData_def Let_def parts_loop_done)
qed

theorem no_boundary_gives_empty_result_witness:
  "split_crlf (''hello'' @ crlf @ ''world'') = [''hello'', ''world''] \<and>
   parseMultipartFormData decodeASCII noJSON (''hello'' @ crlf @ ''world'') ''B'' Map.empty
     = Some (Inr [])"
proof -
  have s: "split_crlf (''hello'' @ crlf @ ''world'') = [''hello'', ''world'']"
    by (simp add: crlf_def CR_def LF_def)
  have "\<forall>l \<in> set (split_crlf (''hello'' @ crlf @ ''world'')). \<not> prefix (''--'' @ ''B'') l"
    unfolding s by simp
  from no_boundary_gives_empty_result [OF this] s show ?thesis by simp
qed

text \<open>The claim as stated fails: a buffer without any delimiter line is parsed without an
  error, here to the empty result.\<close>

theorem boundary_not_found_counterexample:
  "split_crlf ''hello'' = [''hello''] \<and> \<not> prefix ''--B'' ''hello'' \<and>
   parseMultipartFormData decodeASCII noJSON ''hello'' ''B'' Map.empty = Some (Inr [])"
  by code_simp

section \<open>The loop over the parts\<close>

lemma parts_loop_step:
  "startIdx < length array \<Longrightarrow>
   parts_loop dec reg array sep result startIdx l =
     (case parse_part dec reg array sep result l of
        None \<Rightarrow> None
      | Some (Inl e) \<Rightarrow> Some (Inl e)
      | Some (Inr (Break result')) \<Rightarrow> Some (Inr result')
      | Some (Inr (Continue result' startIdx' l')) \<Rightarrow> parts_loop dec reg array sep result' startIdx' l')"
  by (subst parts_loop.simps) simp

lemma parse_part_header_error:
  "part_headers dec array l = Inl e \<Longrightarrow> parse_part dec reg array sep result l = Some (Inl e)"
  by (simp add: parse_part_def part_headers_def)

lemma parse_part_nameless:
  "part_headers dec array l = Inr h \<Longrightarrow> falsy (h_name h) \<Longrightarrow>
   parse_part dec reg array sep result l = Some (Inl EntryNameMissing)"
  by (cases "h_name h") (simp_all add: parse_part_def part_headers_def)

lemma parse_part_named:
  assumes "part_headers dec array l = Inr h" "h_name h = Some name" "name \<noteq> []"
  shows "parse_part dec reg array sep result l =
     (case body_scan array sep (h_startIdx h + 1) of
        None \<Rightarrow> None
      | Some p \<Rightarrow>
         (case processContent reg (case h_contentType h of None \<Rightarrow> ''text/plain'' | Some c \<Rightarrow> c)
                 (subarray array (h_startIdx h + 2) (p - 2)) (h_filename h) of
            Inl e \<Rightarrow> Some (Inl e)
          | Inr content \<Rightarrow>
              (if final_boundary_at array sep p
               then Some (Inr (Break (addContentToResult result name content)))
               else Some (Inr (Continue (addContentToResult result name content) p
                                (getLineEndIdx array p + 2))))))"
  using assms
  by (simp add: parse_part_def part_headers_def Let_def final_boundary_at_def
      cong: option.case_cong sum.case_cong if_cong)








lemma part_next_parts_loop:
  "part_next dec reg array sep (r, s, l) (r', s', l') \<Longrightarrow>
   parts_loop dec reg array sep r s l = parts_loop dec reg array sep r' s' l'"
  by (simp add: part_next_def parts_loop_step)

lemma reached_parts_loop:
  "(part_next dec reg array sep)\<^sup>*\<^sup>* st st' \<Longrightarrow>
   parts_loop dec reg array sep (fst st) (fst (snd st)) (snd (snd st))
     = parts_loop dec reg array sep (fst st') (fst (snd st')) (snd (snd st'))"
proof (induction rule: rtranclp_induct)
  case base
  show ?case by simp
next
  case (step y z)
  from step.hyps(2) have
    "parts_loop dec reg array sep (fst y) (fst (snd y)) (snd (snd y))
       = parts_loop dec reg array sep (fst z) (fst (snd z)) (snd (snd z))"
    using part_next_parts_loop [of dec reg array sep "fst y" "fst (snd y)" "snd (snd y)"
        "fst z" "fst (snd z)" "snd (snd z)"] by simp
  with step.IH show ?case by simp
qed

text \<open>
  C7. Whenever the parser reaches a part (after any number of completed parts, with any
  entries already accumulated) whose header block ends without a captured name, the whole
  call fails with the missing-field error: no result is returned, so the entries of the
  earlier parts are not exposed.
\<close>

theorem nameless_part_fails:
  assumes "registry = contentProcessorsWithDefaults dec jparse contentProcessors"
    and "sep = ''--'' @ boundary"
    and "s0 = preamble_loop inputArray sep 0"
    and "(part_next dec registry inputArray sep)\<^sup>*\<^sup>* ([], s0, s0) (result, startIdx, lineEndIdx)"
    and "startIdx < length inputArray"
    and "part_headers dec inputArray lineEndIdx = Inr h"
    and "falsy (h_name h)"
  shows "parseMultipartFormData dec jparse inputArray boundary contentProcessors
           = Some (Inl EntryNameMissing)"
proof -
  have "parseMultipartFormData dec jparse inputArray boundary contentProcessors
          = parts_loop dec registry inputArray sep [] s0 s0"
    by (simp add: parseMultipartFormData_def assms(1-3) Let_def)
  also have "\<dots> = parts_loop dec registry inputArray sep result startIdx lineEndIdx"
    using reached_parts_loop [OF assms(4)] by simp
  also have "\<dots> = Some (Inl EntryNameMissing)"
    using assms(5-7) by (simp add: parts_loop_step parse_part_nameless)
  finally show ?thesis .
qed

theorem nameless_part_fails_witness:
  "parseMultipartFormData decodeASCII noJSON nameless_payload ''B'' Map.empty
     = Some (Inl EntryNameMissing)"
proof -
  let ?reg = "contentProcessorsWithDefaults decodeASCII noJSON Map.empty"
  let ?r = "[(''a'', Single \<lparr>contentType = ''text/plain'', data = Text ''x'', filename = None\<rparr>)]"
  have s0: "5 = preamble_loop nameless_payload ''--B'' 0" by code_simp
  have "part_next decodeASCII ?reg nameless_payload ''--B'' ([], 5, 5) (?r, 52, 57)"
    by code_simp
  then have reach: "(part_next decodeASCII ?reg nameless_payload ''--B'')\<^sup>*\<^sup>* ([], 5, 5) (?r, 52, 57)"
    by (rule r_into_rtranclp)
  have len: "52 < length nameless_payload" by code_simp
  have hdr: "part_headers decodeASCII nameless_payload 57
    = Inr \<lparr>h_name = None, h_contentType = None, h_filename = None, h_startIdx = 67\<rparr>"
    by code_simp
  show ?thesis
    by (rule nameless_part_fails [OF refl _ s0 reach len hdr]) simp_all
qed

lemma parse_part_InrE:
  assumes "parse_part dec reg array sep result l = Some (Inr out)"
  obtains h name p content where
    "part_headers dec array l = Inr h" "h_name h = Some name" "name \<noteq> []"
    "body_scan array sep (h_startIdx h + 1) = Some p"
    "processContent reg (case h_contentType h of None \<Rightarrow> ''text/plain'' | Some c \<Rightarrow> c)
       (subarray array (h_startIdx h + 2) (p - 2)) (h_filename h) = Inr content"
    "out = (if final_boundary_at array sep p
            then Break (addContentToResult result name content)
            else Continue (addContentToResult result name content) p (getLineEndIdx array p + 2))"
proof (cases "part_headers dec array l")
  case (Inl e)
  with assms show ?thesis by (simp add: parse_part_header_error)
next
  case (Inr h)
  show ?thesis
  proof (cases "falsy (h_name h)")
    case True
    with assms Inr show ?thesis by (simp add: parse_part_nameless)
  next
    case False
    then obtain name where n: "h_name h = Some name" "name \<noteq> []"
      by (cases "h_name h") auto
    from assms show ?thesis
      unfolding parse_part_named [OF Inr n]
      by (auto split: option.splits sum.splits if_splits intro: that [OF Inr n])
  qed
qed

lemma addContentToResult_key_set:
  "fst ` set (addContentToResult r n e) = insert n (fst ` set r)"
proof -
  have "set (map fst (addContentToResult r n e)) = insert n (set (map fst r))"
    unfolding addContentToResult_keys by auto
  then show ?thesis by simp
qed

lemma parse_part_keys:
  assumes "parse_part dec reg array sep result l = Some (Inr out)" "[] \<notin> fst ` set result"
  shows "[] \<notin> fst ` set (outcome_result out)"
  using assms(1)
proof (rule parse_part_InrE)
  fix h name p content
  assume "name \<noteq> []"
    and "out = (if final_boundary_at array sep p
            then Break (addContentToResult result name content)
            else Continue (addContentToResult result name content) p (getLineEndIdx array p + 2))"
  with assms(2) show ?thesis by (auto simp: addContentToResult_key_set)
qed

lemma parts_loop_keys_aux:
  assumes "parts_loop dec reg array sep result s l = Some y"
  shows "\<forall>r. y = Inr r \<longrightarrow> [] \<notin> fst ` set result \<longrightarrow> [] \<notin> fst ` set r"
proof (induct rule: parts_loop.raw_induct [OF _ assms])
  case (1 loop dec reg array sep result s l y)
  note IH = "1.hyps"(1) and eq = "1.hyps"(2)
  show ?case
  proof (intro allI impI)
    fix r assume y: "y = Inr r" and k: "[] \<notin> fst ` set result"
    show "[] \<notin> fst ` set r"
    proof (cases "s < length array")
      case False
      with eq y k show ?thesis by simp
    next
      case True
      show ?thesis
      proof (cases "parse_part dec reg array sep result l")
        case None
        with eq True show ?thesis by simp
      next
        case (Some x)
        show ?thesis
        proof (cases x)
          case (Inl e)
          with eq True Some y show ?thesis by simp
        next
          case (Inr out)
          from parse_part_keys [OF Some [unfolded Inr] k]
          have ko: "[] \<notin> fst ` set (outcome_result out)" .
          show ?thesis
          proof (cases out)
            case (Break r')
            with eq True Some Inr y ko show ?thesis by simp
          next
            case (Continue r' s' l')
            with eq True Some Inr have "loop dec reg array sep r' s' l' = Some y" by simp
            from IH [OF this] y ko Continue show ?thesis by simp
          qed
        qed
      qed
    qed
  qed
qed

lemma parts_loop_keys:
  "parts_loop dec reg array sep result s l = Some (Inr r) \<Longrightarrow> [] \<notin> fst ` set result
     \<Longrightarrow> [] \<notin> fst ` set r"
  using parts_loop_keys_aux by blast

text \<open>
  C10 (as amended). A captured empty name counts as not captured. When the header block of
  a part ends with the captured name still empty (no later name parameter has replaced
  it), the parse fails with the missing-name error, as it does when no name was captured;
  and the empty string is never a key of a returned result.
\<close>

theorem empty_name_is_missing:
  "(startIdx < length array \<and> part_headers dec array lineEndIdx = Inr h \<and> h_name h = Some []
      \<longrightarrow> parts_loop dec registry array sep result startIdx lineEndIdx
            = Some (Inl EntryNameMissing)) \<and>
   (parseMultipartFormData dec jparse inputArray boundary contentProcessors = Some (Inr r)
      \<longrightarrow> [] \<notin> fst ` set r)"
proof (intro conjI impI)
  assume "startIdx < length array \<and> part_headers dec array lineEndIdx = Inr h \<and> h_name h = Some []"
  then show "parts_loop dec registry array sep result startIdx lineEndIdx
            = Some (Inl EntryNameMissing)"
    by (simp add: parts_loop_step parse_part_nameless)
next
  assume "parseMultipartFormData dec jparse inputArray boundary contentProcessors = Some (Inr r)"
  then show "[] \<notin> fst ` set r"
    by (auto simp: parseMultipartFormData_def Let_def dest: parts_loop_keys)
qed

theorem empty_name_is_missing_witness:
  "parts_loop decodeASCII (contentProcessorsWithDefaults decodeASCII noJSON Map.empty)
     empty_name_payload ''--B'' [] 5 5 = Some (Inl EntryNameMissing) \<and>
   [] \<notin> fst ` set [(''x'', Single \<lparr>contentType = ''text/plain'', data = (Text ''v'' :: unit data),
                                 filename = None\<rparr>)]"
proof -
  have 1: "part_headers decodeASCII empty_name_payload 5
    = Inr \<lparr>h_name = Some [], h_contentType = None, h_filename = None, h_startIdx = 46\<rparr>"
    by code_simp
  have 2: "5 < length empty_name_payload" by code_simp
  have 3: "parseMultipartFormData decodeASCII noJSON renamed_payload ''B'' Map.empty
    = Some (Inr [(''x'', Single \<lparr>contentType = ''text/plain'', data = Text ''v'', filename = None\<rparr>)])"
    by code_simp
  show ?thesis
    using empty_name_is_missing [of 5 empty_name_payload decodeASCII 5
        "\<lparr>h_name = Some [], h_contentType = None, h_filename = None, h_startIdx = 46\<rparr>"
        "contentProcessorsWithDefaults decodeASCII noJSON Map.empty" "''--B''" "[]"
        noJSON renamed_payload "''B''" Map.empty
        "[(''x'', Single \<lparr>contentType = ''text/plain'', data = Text ''v'', filename = None\<rparr>)]"]
      1 2 3
    by simp
qed

text \<open>The claim as stated fails: a Content-Disposition line that carries \<^verbatim>\<open>name=""\<close>
  followed by \<^verbatim>\<open>name="x"\<close> raises no error; the part is stored under \<^verbatim>\<open>x\<close>.\<close>

theorem empty_name_replaced_counterexample:
  "renamed_payload =
     ''--B'' @ crlf @ ''Content-Disposition: form-data; name='' @ [quoteUTF8, quoteUTF8] @
     ''; name='' @ [quoteUTF8] @ ''x'' @ [quoteUTF8] @ crlf @ crlf @ ''v'' @ crlf @ ''--B--'' \<and>
   parseMultipartFormData decodeASCII noJSON renamed_payload ''B'' Map.empty
     = Some (Inr [(''x'', Single \<lparr>contentType = ''text/plain'', data = Text ''v'', filename = None\<rparr>)])"
  by code_simp




section \<open>Bytes before the scanned position do not matter\<close>

lemma drop_shift: "drop (length q + s) (q @ p) = drop s p"
  by simp

lemma subarray_shift: "subarray (q @ p) (length q + a) (length q + b) = subarray p a b"
  by (simp add: subarray_def)

lemma header_step_shift:
  "header_step dec (q @ p) (shift_header (length q) h)
     = map_sum (\<lambda>e. e) (shift_header (length q)) (header_step dec p h)"
proof -
  have g: "getLineEndIdx (q @ p) (length q + h_startIdx h + length contentTypePrefixUTF8)
        = length q + getLineEndIdx p (h_startIdx h + length contentTypePrefixUTF8)"
    using getLineEndIdx_shift [of q p "h_startIdx h + length contentTypePrefixUTF8"]
    by (simp add: add.assoc)
  have s: "subarray (q @ p) (length q + h_startIdx h + length contentTypePrefixUTF8 + 1)
             (length q + getLineEndIdx p (h_startIdx h + length contentTypePrefixUTF8))
        = subarray p (h_startIdx h + length contentTypePrefixUTF8 + 1)
             (getLineEndIdx p (h_startIdx h + length contentTypePrefixUTF8))"
    using subarray_shift [of q p "h_startIdx h + length contentTypePrefixUTF8 + 1"]
    by (simp add: add.assoc)
  show ?thesis
    using g s unfolding header_step_def shift_header_def Let_def
    by (simp add: add.assoc split: sum.splits prod.splits)
qed

lemma shift_header_sel:
  "h_startIdx (shift_header n h) = n + h_startIdx h"
  "h_name (shift_header n h) = h_name h"
  "h_contentType (shift_header n h) = h_contentType h"
  "h_filename (shift_header n h) = h_filename h"
  by (simp_all add: shift_header_def)

lemma header_loop_shift:
  "header_loop dec (q @ p) (shift_header (length q) h)
     = map_sum (\<lambda>e. e) (shift_header (length q)) (header_loop dec p h)"
proof (induction dec p h rule: header_loop.induct)
  case (1 dec p h)
  show ?case
  proof (cases "header_step dec p h")
    case (Inl e)
    then show ?thesis
      by (subst header_loop.simps, subst (2) header_loop.simps) (simp add: header_step_shift)
  next
    case (Inr h')
    define c where "c \<longleftrightarrow> (at p (h_startIdx h') \<noteq> Some CR \<or> at p (h_startIdx h' + 1) \<noteq> Some LF)
                   \<and> h_startIdx h' < length p"
    have a: "at (q @ p) (length q + h_startIdx h') = at p (h_startIdx h')"
      by (rule at_append_right)
    have b: "at (q @ p) (length q + h_startIdx h' + 1) = at p (h_startIdx h' + 1)"
      using at_append_right [of q p "h_startIdx h' + 1"] by (simp add: add.assoc)
    have c': "((at (q @ p) (h_startIdx (shift_header (length q) h')) \<noteq> Some CR
             \<or> at (q @ p) (h_startIdx (shift_header (length q) h') + 1) \<noteq> Some LF)
            \<and> h_startIdx (shift_header (length q) h') < length (q @ p)) = c"
      unfolding c_def shift_header_sel a b by simp
    have l: "header_loop dec (q @ p) (shift_header (length q) h)
      = (if c then header_loop dec (q @ p) (shift_header (length q) h')
         else Inr (shift_header (length q) h'))"
      by (subst header_loop.simps) (simp only: header_step_shift Inr sum.case map_sum.simps c')
    have r: "header_loop dec p h = (if c then header_loop dec p h' else Inr h')"
      by (subst header_loop.simps) (simp only: Inr sum.case c_def)
    show ?thesis
    proof (cases c)
      case True
      then have "header_loop dec (q @ p) (shift_header (length q) h')
        = map_sum (\<lambda>e. e) (shift_header (length q)) (header_loop dec p h')"
        using "1.IH" [OF Inr] by (simp add: c_def)
      with True show ?thesis by (simp only: l r if_True)
    next
      case False
      then show ?thesis by (simp only: l r if_False map_sum.simps)
    qed
  qed
qed

lemma part_headers_shift:
  "part_headers dec (q @ p) (length q + l) = map_sum (\<lambda>e. e) (shift_header (length q)) (part_headers dec p l)"
  using header_loop_shift [of dec q p
      "\<lparr>h_name = None, h_contentType = None, h_filename = None, h_startIdx = l\<rparr>"]
  by (simp add: part_headers_def shift_header_def)

lemma startsWith_shift:
  "startsWithArrayPrefix (drop (length q + j) (q @ p)) sep = startsWithArrayPrefix (drop j p) sep"
  by simp

lemma body_scan_shift_1:
  assumes "body_scan a sep j = Some y"
  shows "\<forall>q p i. a = q @ p \<and> j = length q + i \<longrightarrow>
           (\<exists>y'. y = length q + y' \<and> body_scan p sep i = Some y')"
proof (induct rule: body_scan.raw_induct [OF _ assms])
  case (1 scan a sep j y)
  note IH = "1.hyps"(1) and eq = "1.hyps"(2)
  show ?case
  proof (intro allI impI)
    fix q p i assume ap: "a = q @ p \<and> j = length q + i"
    let ?k = "getLineEndIdx p i + 2"
    have g: "getLineEndIdx a j + 2 = length q + ?k"
      using ap getLineEndIdx_shift [of q p i] by simp
    have sw: "startsWithArrayPrefix (drop (length q + ?k) a) sep
              = startsWithArrayPrefix (drop ?k p) sep"
      using ap startsWith_shift [of q ?k p sep] by simp
    show "\<exists>y'. y = length q + y' \<and> body_scan p sep i = Some y'"
    proof (cases "startsWithArrayPrefix (drop ?k p) sep")
      case True
      with eq g sw have "y = length q + ?k" by (simp add: Let_def)
      moreover have "body_scan p sep i = Some ?k"
        using True by (subst body_scan.simps) (simp add: Let_def)
      ultimately show ?thesis by blast
    next
      case False
      with eq g sw have "scan a sep (length q + ?k) = Some y" by (simp add: Let_def)
      from IH [OF this] ap obtain y' where "y = length q + y'" "body_scan p sep ?k = Some y'"
        by blast
      moreover have "body_scan p sep i = body_scan p sep ?k"
        using False by (subst body_scan.simps) (simp add: Let_def)
      ultimately show ?thesis by simp
    qed
  qed
qed

lemma body_scan_shift_2:
  assumes "body_scan p sep i = Some y"
  shows "\<forall>q. body_scan (q @ p) sep (length q + i) = Some (length q + y)"
proof (induct rule: body_scan.raw_induct [OF _ assms])
  case (1 scan p sep i y)
  note IH = "1.hyps"(1) and eq = "1.hyps"(2)
  show ?case
  proof
    fix q
    let ?k = "getLineEndIdx p i + 2"
    have g: "getLineEndIdx (q @ p) (length q + i) + 2 = length q + ?k"
      using getLineEndIdx_shift [of q p i] by simp
    have sw: "startsWithArrayPrefix (drop (length q + ?k) (q @ p)) sep
              = startsWithArrayPrefix (drop ?k p) sep"
      by (rule startsWith_shift)
    show "body_scan (q @ p) sep (length q + i) = Some (length q + y)"
    proof (cases "startsWithArrayPrefix (drop ?k p) sep")
      case True
      with eq have "y = ?k" by (simp add: Let_def)
      then show ?thesis
        using True g sw by (subst body_scan.simps) (simp add: Let_def)
    next
      case False
      with eq have "scan p sep ?k = Some y" by (simp add: Let_def)
      from IH [OF this] have "body_scan (q @ p) sep (length q + ?k) = Some (length q + y)"
        by blast
      then show ?thesis
        using False g sw by (subst body_scan.simps) (simp add: Let_def)
    qed
  qed
qed

lemma body_scan_shift:
  "body_scan (q @ p) sep (length q + i) = map_option ((+) (length q)) (body_scan p sep i)"
proof (cases "body_scan p sep i")
  case (Some y)
  with body_scan_shift_2 [OF Some] show ?thesis by simp
next
  case None
  show ?thesis
  proof (cases "body_scan (q @ p) sep (length q + i)")
    case n: None
    with None show ?thesis by simp
  next
    case (Some y)
    from body_scan_shift_1 [OF Some, THEN spec, THEN spec, THEN spec, of q p i] None
    show ?thesis by simp
  qed
qed

lemma final_boundary_at_shift:
  "final_boundary_at (q @ p) sep (length q + y) = final_boundary_at p sep y"
proof -
  have "subarray (q @ p) (length q + y + length sep) (getLineEndIdx (q @ p) (length q + y))
        = subarray p (y + length sep) (getLineEndIdx p y)"
    using subarray_shift [of q p "y + length sep" "getLineEndIdx p y"]
    by (simp add: getLineEndIdx_shift add.assoc)
  then show ?thesis by (simp add: final_boundary_at_def)
qed

lemma parse_part_shift:
  assumes "sep \<noteq> []"
  shows "parse_part dec reg (q @ p) sep r (length q + l)
     = map_option (map_sum (\<lambda>e. e) (shift_outcome (length q))) (parse_part dec reg p sep r l)"
proof (cases "part_headers dec p l")
  case (Inl e)
  then have "part_headers dec (q @ p) (length q + l) = Inl e"
    by (simp add: part_headers_shift)
  with Inl show ?thesis
    using parse_part_header_error [of dec p l e reg sep r]
      parse_part_header_error [of dec "q @ p" "length q + l" e reg sep r] by simp
next
  case (Inr h)
  then have hq: "part_headers dec (q @ p) (length q + l) = Inr (shift_header (length q) h)"
    by (simp add: part_headers_shift)
  show ?thesis
  proof (cases "falsy (h_name h)")
    case True
    then show ?thesis
      using parse_part_nameless [OF Inr True, of reg sep r]
        parse_part_nameless [OF hq, of reg sep r]
      by (simp add: shift_header_sel)
  next
    case False
    then obtain name where n: "h_name h = Some name" "name \<noteq> []"
      by (cases "h_name h") auto
    have nq: "h_name (shift_header (length q) h) = Some name" by (simp add: shift_header_sel n)
    have b: "body_scan (q @ p) sep (h_startIdx (shift_header (length q) h) + 1)
             = map_option ((+) (length q)) (body_scan p sep (h_startIdx h + 1))"
      using body_scan_shift [of q p sep "h_startIdx h + 1"]
      by (simp add: shift_header_sel add.assoc)
    show ?thesis
    proof (cases "body_scan p sep (h_startIdx h + 1)")
      case None
      then show ?thesis
        unfolding parse_part_named [OF Inr n] parse_part_named [OF hq nq n(2)] b by simp
    next
      case (Some y)
      from body_scan_Some(2) [OF Some assms] have y2: "2 \<le> y" by simp
      have s: "subarray (q @ p) (h_startIdx (shift_header (length q) h) + 2) (length q + y - 2)
               = subarray p (h_startIdx h + 2) (y - 2)"
        using subarray_shift [of q p "h_startIdx h + 2" "y - 2"] y2
        by (simp add: shift_header_sel add.assoc)
      have g: "getLineEndIdx (q @ p) (length q + y) + 2 = length q + (getLineEndIdx p y + 2)"
        by (simp add: getLineEndIdx_shift)
      show ?thesis
        unfolding parse_part_named [OF Inr n] parse_part_named [OF hq nq n(2)] b Some
        using s g
        by (cases "processContent reg (case h_contentType h of None \<Rightarrow> ''text/plain'' | Some c \<Rightarrow> c)
                    (subarray p (h_startIdx h + 2) (y - 2)) (h_filename h)")
           (simp_all add: final_boundary_at_shift shift_header_sel)
    qed
  qed
qed

lemma parts_loop_shift_1:
  assumes "parts_loop dec reg a sep r s l = Some y"
  shows "\<forall>q p s' l'. a = q @ p \<and> s = length q + s' \<and> l = length q + l' \<and> sep \<noteq> [] \<longrightarrow>
           parts_loop dec reg p sep r s' l' = Some y"
proof (induct rule: parts_loop.raw_induct [OF _ assms])
  case (1 loop dec reg a sep r s l y)
  note IH = "1.hyps"(1) and eq = "1.hyps"(2)
  show ?case
  proof (intro allI impI)
    fix q p s' l'
    assume ap: "a = q @ p \<and> s = length q + s' \<and> l = length q + l' \<and> sep \<noteq> []"
    then have pp: "parse_part dec reg a sep r l
      = map_option (map_sum (\<lambda>e. e) (shift_outcome (length q))) (parse_part dec reg p sep r l')"
      using parse_part_shift [of sep dec reg q p r l'] by simp
    show "parts_loop dec reg p sep r s' l' = Some y"
    proof (cases "s' < length p")
      case False
      with eq ap show ?thesis by (simp add: parts_loop_done)
    next
      case True
      then have sa: "s < length a" using ap by simp
      show ?thesis
      proof (cases "parse_part dec reg p sep r l'")
        case None
        with eq sa pp show ?thesis by simp
      next
        case (Some x)
        show ?thesis
        proof (cases x)
          case (Inl e)
          with eq sa pp Some True show ?thesis by (simp add: parts_loop_step)
        next
          case (Inr out)
          show ?thesis
          proof (cases out)
            case (Break r')
            with eq sa pp Some Inr True show ?thesis by (simp add: parts_loop_step)
          next
            case (Continue r' s1 l1)
            with eq sa pp Some Inr
            have "loop dec reg a sep r' (length q + s1) (length q + l1) = Some y" by simp
            from IH [OF this] ap have "parts_loop dec reg p sep r' s1 l1 = Some y" by blast
            with Some Inr Continue True show ?thesis by (simp add: parts_loop_step)
          qed
        qed
      qed
    qed
  qed
qed

lemma parts_loop_shift_2:
  assumes "parts_loop dec reg p sep r s l = Some y"
  shows "\<forall>q. sep \<noteq> [] \<longrightarrow> parts_loop dec reg (q @ p) sep r (length q + s) (length q + l) = Some y"
proof (induct rule: parts_loop.raw_induct [OF _ assms])
  case (1 loop dec reg p sep r s l y)
  note IH = "1.hyps"(1) and eq = "1.hyps"(2)
  show ?case
  proof (intro allI impI)
    fix q assume ne: "sep \<noteq> []"
    have pp: "parse_part dec reg (q @ p) sep r (length q + l)
      = map_option (map_sum (\<lambda>e. e) (shift_outcome (length q))) (parse_part dec reg p sep r l)"
      by (rule parse_part_shift [OF ne])
    show "parts_loop dec reg (q @ p) sep r (length q + s) (length q + l) = Some y"
    proof (cases "s < length p")
      case False
      with eq show ?thesis by (simp add: parts_loop_done)
    next
      case True
      then have sa: "length q + s < length (q @ p)" by simp
      show ?thesis
      proof (cases "parse_part dec reg p sep r l")
        case None
        with eq True show ?thesis by simp
      next
        case (Some x)
        show ?thesis
        proof (cases x)
          case (Inl e)
          with eq True Some show ?thesis by (simp add: parts_loop_step [OF sa] pp)
        next
          case (Inr out)
          show ?thesis
          proof (cases out)
            case (Break r')
            with eq True Some Inr show ?thesis by (simp add: parts_loop_step [OF sa] pp)
          next
            case (Continue r' s1 l1)
            with eq True Some Inr have "loop dec reg p sep r' s1 l1 = Some y" by simp
            from IH [OF this] ne
            have "parts_loop dec reg (q @ p) sep r' (length q + s1) (length q + l1) = Some y"
              by blast
            with Some Inr Continue show ?thesis by (simp add: parts_loop_step [OF sa] pp)
          qed
        qed
      qed
    qed
  qed
qed

lemma parts_loop_shift:
  assumes "sep \<noteq> []"
  shows "parts_loop dec reg (q @ p) sep r (length q + s) (length q + l)
           = parts_loop dec reg p sep r s l"
proof (cases "parts_loop dec reg p sep r s l")
  case (Some y)
  with parts_loop_shift_2 [OF Some] assms show ?thesis by simp
next
  case None
  show ?thesis
  proof (cases "parts_loop dec reg (q @ p) sep r (length q + s) (length q + l)")
    case n: None
    with None show ?thesis by simp
  next
    case (Some y)
    from parts_loop_shift_1 [OF Some, THEN spec, THEN spec, THEN spec, THEN spec, of q p s l]
      assms None
    show ?thesis by simp
  qed
qed

lemma preamble_loop_shift:
  "preamble_loop (q @ p) sep (length q + s) = length q + preamble_loop p sep s"
proof (induction p sep s rule: preamble_loop.induct)
  case (1 p sep s)
  let ?g = "getLineEndIdx p s"
  have g: "getLineEndIdx (q @ p) (length q + s) = length q + ?g"
    by (rule getLineEndIdx_shift)
  have sub: "subarray (q @ p) (length q + s) (length q + ?g) = subarray p s ?g"
    by (rule subarray_shift)
  define c where "c \<longleftrightarrow> \<not> startsWithArrayPrefix (subarray p s ?g) sep \<and> ?g + 2 < length p"
  have l: "preamble_loop (q @ p) sep (length q + s)
    = (if c then preamble_loop (q @ p) sep (length q + (?g + 2)) else length q + (?g + 2))"
    by (subst preamble_loop.simps) (simp add: Let_def g sub c_def)
  have r: "preamble_loop p sep s = (if c then preamble_loop p sep (?g + 2) else ?g + 2)"
    by (subst preamble_loop.simps) (simp add: Let_def c_def)
  show ?case
  proof (cases c)
    case True
    then have "preamble_loop (q @ p) sep (length q + (?g + 2)) = length q + preamble_loop p sep (?g + 2)"
      using "1.IH" [OF refl refl refl] by (simp add: c_def)
    with True show ?thesis by (simp only: l r if_True)
  next
    case False
    then show ?thesis by (simp only: l r if_False)
  qed
qed

lemma getLineEndIdx_line:
  assumes "split_crlf l = [l]"
  shows "getLineEndIdx (l @ crlf @ rest) 0 = length l"
proof (rule getLineEndIdx_unique)
  show "length l \<le> length (l @ crlf @ rest)" by simp
next
  have "at (l @ crlf @ rest) (length l + 0) = Some CR" "at (l @ crlf @ rest) (length l + 1) = Some LF"
    unfolding at_append_right by (simp_all add: at_def crlf_def)
  then show "0 \<le> length l \<and> crlf_at (l @ crlf @ rest) (length l)"
    by (simp add: crlf_at_def)
next
  fix j assume j: "0 \<le> j" "j < length l"
  from split_crlf_first [OF assms] j have n: "\<not> crlf_at l j" by simp
  show "\<not> crlf_at (l @ crlf @ rest) j"
  proof (cases "j + 1 < length l")
    case True
    with j n show ?thesis by (simp add: crlf_at_def at_def nth_append)
  next
    case False
    with j have "j + 1 = length l" by simp
    then have "at (l @ crlf @ rest) (j + 1) = Some CR"
      using at_append_right [of l "crlf @ rest" 0] by (simp add: at_def crlf_def)
    then show ?thesis by (simp add: crlf_at_def CR_def LF_def)
  qed
qed

lemma preamble_loop_line:
  assumes "split_crlf l = [l]" "\<not> prefix sep l"
  shows "preamble_loop (q @ l @ crlf @ rest) sep (length q)
     = (if rest = [] then length q + length l + 2
        else preamble_loop (q @ l @ crlf @ rest) sep (length q + length l + 2))"
proof -
  have g: "getLineEndIdx (q @ l @ crlf @ rest) (length q) = length q + length l"
    using getLineEndIdx_shift [of q "l @ crlf @ rest" 0] getLineEndIdx_line [OF assms(1), of rest]
    by simp
  have sub: "subarray (q @ l @ crlf @ rest) (length q) (length q + length l) = l"
    using subarray_shift [of q "l @ crlf @ rest" 0 "length l"] by (simp add: subarray_def)
  have len: "length q + length l + 2 < length (q @ l @ crlf @ rest) \<longleftrightarrow> rest \<noteq> []"
    by (simp add: crlf_def)
  show ?thesis
    using assms(2) len
    by (subst preamble_loop.simps) (simp add: Let_def g sub startsWith_iff)
qed

lemma preamble_loop_skip:
  assumes "\<forall>l \<in> set ls. split_crlf l = [l] \<and> \<not> prefix sep l" "payload \<noteq> []"
  shows "preamble_loop (q @ preamble_of ls @ payload) sep (length q)
     = preamble_loop (q @ preamble_of ls @ payload) sep (length q + length (preamble_of ls))"
  using assms(1)
proof (induction ls arbitrary: q)
  case Nil
  show ?case by (simp add: preamble_of_def)
next
  case (Cons l ls)
  have p: "preamble_of (l # ls) = l @ crlf @ preamble_of ls" by (simp add: preamble_of_def)
  have "preamble_loop (q @ l @ crlf @ (preamble_of ls @ payload)) sep (length q)
      = preamble_loop (q @ l @ crlf @ (preamble_of ls @ payload)) sep (length q + length l + 2)"
    using preamble_loop_line [of l sep q "preamble_of ls @ payload"] Cons.prems assms(2) by simp
  also have "\<dots> = preamble_loop ((q @ l @ crlf) @ preamble_of ls @ payload) sep (length (q @ l @ crlf))"
    by (simp add: crlf_def)
  also have "\<dots> = preamble_loop ((q @ l @ crlf) @ preamble_of ls @ payload) sep
                      (length (q @ l @ crlf) + length (preamble_of ls))"
    using Cons.IH [of "q @ l @ crlf"] Cons.prems by simp
  finally show ?case by (simp add: p crlf_def add.assoc)
qed

lemma preamble_loop_only:
  assumes "\<forall>l \<in> set ls. split_crlf l = [l] \<and> \<not> prefix sep l" "ls \<noteq> []"
  shows "preamble_loop (q @ preamble_of ls) sep (length q) = length q + length (preamble_of ls)"
  using assms
proof (induction ls arbitrary: q)
  case Nil
  then show ?case by simp
next
  case (Cons l ls)
  have p: "preamble_of (l # ls) = l @ crlf @ preamble_of ls" by (simp add: preamble_of_def)
  show ?case
  proof (cases "ls = []")
    case True
    then show ?thesis
      using preamble_loop_line [of l sep q "[]"] Cons.prems(1)
      by (simp add: preamble_of_def crlf_def)
  next
    case False
    then have ne: "preamble_of ls \<noteq> []" by (cases ls) (simp_all add: preamble_of_def crlf_def)
    have "preamble_loop (q @ l @ crlf @ preamble_of ls) sep (length q)
      = preamble_loop ((q @ l @ crlf) @ preamble_of ls) sep (length (q @ l @ crlf))"
      using preamble_loop_line [of l sep q "preamble_of ls"] Cons.prems(1) ne
      by (simp add: crlf_def)
    also have "\<dots> = length (q @ l @ crlf) + length (preamble_of ls)"
      using Cons.IH [of "q @ l @ crlf"] Cons.prems(1) False by simp
    finally show ?thesis by (simp add: p crlf_def)
  qed
qed

text \<open>
  C8. A preamble made of CR LF terminated lines, none of which starts with the boundary
  delimiter, does not change what the parser does: for every payload (well-formed or not)
  the call on the payload with the preamble prepended gives the very outcome of the call
  on the payload alone, be it a result, an error, or no return.
\<close>

theorem preamble_is_ignored:
  assumes "\<forall>l \<in> set ls. split_crlf l = [l] \<and> \<not> prefix (''--'' @ boundary) l"
  shows "parseMultipartFormData dec jparse (preamble_of ls @ payload) boundary contentProcessors
       = parseMultipartFormData dec jparse payload boundary contentProcessors"
proof (cases "payload = []")
  case True
  show ?thesis
  proof (cases "ls = []")
    case True
    then show ?thesis by (simp add: preamble_of_def)
  next
    case False
    have "preamble_loop (preamble_of ls) (''--'' @ boundary) 0 = length (preamble_of ls)"
      using preamble_loop_only [OF assms False, of "[]"] by simp
    moreover have "length ([] :: bytes) \<le> preamble_loop [] (''--'' @ boundary) 0" by simp
    ultimately show ?thesis
      using True by (simp add: parseMultipartFormData_def Let_def parts_loop_done)
  qed
next
  case False
  let ?sep = "''--'' @ boundary"
  let ?n = "length (preamble_of ls)"
  let ?s = "preamble_loop payload ?sep 0"
  have "preamble_loop (preamble_of ls @ payload) ?sep 0
      = preamble_loop (preamble_of ls @ payload) ?sep ?n"
    using preamble_loop_skip [OF assms False, of "[]"] by simp
  also have "\<dots> = ?n + ?s"
    using preamble_loop_shift [of "preamble_of ls" payload ?sep 0] by simp
  finally have s: "preamble_loop (preamble_of ls @ payload) ?sep 0 = ?n + ?s" .
  have "parts_loop dec (contentProcessorsWithDefaults dec jparse contentProcessors)
          (preamble_of ls @ payload) ?sep [] (?n + ?s) (?n + ?s)
      = parts_loop dec (contentProcessorsWithDefaults dec jparse contentProcessors)
          payload ?sep [] ?s ?s"
    by (rule parts_loop_shift) simp
  then show ?thesis
    unfolding parseMultipartFormData_def Let_def s by simp
qed

theorem preamble_is_ignored_witness:
  "parseMultipartFormData decodeASCII noJSON (preamble_of preamble_example @ two_part_payload)
     ''B'' Map.empty
   = Some (Inr [(''a'', Multiple
        [\<lparr>contentType = ''text/plain'', data = Text ''x'', filename = None\<rparr>,
         \<lparr>contentType = ''image/png'', data = Raw ''y'', filename = None\<rparr>])])"
proof -
  have 1: "\<forall>l \<in> set preamble_example. split_crlf l = [l] \<and> \<not> prefix (''--'' @ ''B'') l"
    by (simp add: preamble_example_def CR_def LF_def)
  have 2: "parseMultipartFormData decodeASCII noJSON two_part_payload ''B'' Map.empty
   = Some (Inr [(''a'', Multiple
        [\<lparr>contentType = ''text/plain'', data = Text ''x'', filename = None\<rparr>,
         \<lparr>contentType = ''image/png'', data = Raw ''y'', filename = None\<rparr>])])"
    by code_simp
  show ?thesis
    using preamble_is_ignored [OF 1, of decodeASCII noJSON two_part_payload Map.empty] 2
    by simp
qed

section \<open>Bytes after the scanned range do not matter\<close>










lemma at_drop: "at (drop s a) j = at a (s + j)"
  by (auto simp: at_def)





























end
